theory Spec2Isabelle
  imports Main
begin

section \<open>Python values and exceptions\<close>

text \<open>
  The values that travel through \<open>WorkflowResult\<close>: scalars and dictionaries. A Python
  \<open>dict\<close> keeps its keys in insertion order, so it is an association list; the
  operations below keep the keys distinct the way \<open>dict\<close> does.
\<close>

datatype pyval =
    PyNone
  | PyBool bool
  | PyInt int
  | PyStr string
  | PyDict "(string \<times> pyval) list"

type_synonym pydict = "(string \<times> pyval) list"

text \<open>
  Exceptions are values. \<open>TSSCException cause\<close> and \<open>RuntimeError cause\<close> carry the
  exception they were raised from (\<open>raise ... from error\<close>), if any.
\<close>

datatype error =
    TypeError
  | KeyError
  | FileExistsError
  | FileNotFoundError
  | NotADirectoryError
  | IsADirectoryError
  | UnpicklingError
  | TSSCException "error option"
  | RuntimeError error

text \<open>\<open>isinstance(v, dict)\<close>.\<close>

fun is_dict :: "pyval \<Rightarrow> bool" where
  "is_dict (PyDict d) = True"
| "is_dict v = False"

text \<open>\<open>k in d\<close>.\<close>

definition dict_contains :: "pydict \<Rightarrow> string \<Rightarrow> bool" where
  "dict_contains d k = (map_of d k \<noteq> None)"

text \<open>\<open>d[k]\<close>, which raises \<open>KeyError\<close> on a missing key.\<close>

definition dict_getitem :: "pydict \<Rightarrow> string \<Rightarrow> error + pyval" where
  "dict_getitem d k = (case map_of d k of None \<Rightarrow> Inl KeyError | Some v \<Rightarrow> Inr v)"

text \<open>
  \<open>d[k] = v\<close>: an existing key keeps its position and takes the new value, a new key
  goes to the end.
\<close>

fun dict_setitem :: "pydict \<Rightarrow> string \<Rightarrow> pyval \<Rightarrow> pydict" where
  "dict_setitem [] k v = [(k, v)]"
| "dict_setitem ((k', v') # d) k v =
     (if k' = k then (k, v) # d else (k', v') # dict_setitem d k v)"

text \<open>\<open>d.update(other)\<close> for a dictionary \<open>other\<close>: one \<open>d[k] = v\<close> per item, in order.\<close>

definition dict_update :: "pydict \<Rightarrow> pydict \<Rightarrow> pydict" where
  "dict_update d other = fold (\<lambda>(k, v) acc. dict_setitem acc k v) other d"

section \<open>The deep merge\<close>

text \<open>
  \<open>WorkflowResult.merge_results(dict1, dict2)\<close>. The display \<open>{**dict2, **dict1}\<close>
  raises \<open>TypeError\<close> when one of the two is not a mapping (the second equation);
  otherwise it is the empty dictionary updated with \<open>dict2\<close>, then with \<open>dict1\<close>. The
  loop over \<open>intersection.items()\<close> is a fold that carries \<open>output\<close>; an exception
  raised in one iteration ends the loop. The test that sends a shared key into the recursion is
  \<open>isinstance(v_intersect, dict)\<close>, where \<open>v_intersect\<close> is the value of \<open>dict1\<close>; the value
  of \<open>dict2\<close> is not tested.
\<close>

function (sequential) merge_results :: "pyval \<Rightarrow> pyval \<Rightarrow> error + pyval" where
  "merge_results (PyDict d1) (PyDict d2) =
     (case
        fold (\<lambda>(k_intersect, v_intersect) output.
                case output of
                  Inl e \<Rightarrow> Inl e
                | Inr out \<Rightarrow>
                    if \<not> dict_contains d1 k_intersect then
                      (case dict_getitem d2 k_intersect of
                         Inl e \<Rightarrow> Inl e
                       | Inr v_dict2 \<Rightarrow> Inr (dict_setitem out k_intersect v_dict2))
                    else if \<not> dict_contains d2 k_intersect then
                      Inr (dict_setitem out k_intersect v_intersect)
                    else if is_dict v_intersect then
                      (case dict_getitem d2 k_intersect of
                         Inl e \<Rightarrow> Inl e
                       | Inr v_dict2 \<Rightarrow>
                           (case merge_results v_intersect v_dict2 of
                              Inl e \<Rightarrow> Inl e
                            | Inr merged \<Rightarrow> Inr (dict_setitem out k_intersect merged)))
                    else Inr (dict_setitem out k_intersect v_intersect))
             (dict_update (dict_update [] d2) d1) (Inr [])
      of Inl e \<Rightarrow> Inl e | Inr output \<Rightarrow> Inr (PyDict output))"
| "merge_results v1 v2 = Inl TypeError"
  by pat_completeness auto
termination
proof (relation "measure (\<lambda>(v1, v2). size v2)")
  show "wf (measure (\<lambda>(v1, v2). size v2))" by simp
next
  fix d1 d2 :: pydict and x :: "string \<times> pyval" and xa :: "error + pydict"
    and k_intersect :: string and v_intersect :: pyval and out :: pydict
    and v_dict2 :: pyval
  assume g: "dict_getitem d2 k_intersect = Inr v_dict2"
  have mem: "(k_intersect, v_dict2) \<in> set d2"
    using g by (auto simp: dict_getitem_def split: option.splits dest: map_of_SomeD)
  have "\<And>d :: pydict. (k_intersect, v_dict2) \<in> set d \<Longrightarrow> size v_dict2 < size (PyDict d)"
  proof -
    fix d :: pydict
    show "(k_intersect, v_dict2) \<in> set d \<Longrightarrow> size v_dict2 < size (PyDict d)"
      by (induction d) auto
  qed
  with mem show "((v_intersect, v_dict2), PyDict d1, PyDict d2) \<in> measure (\<lambda>(v1, v2). size v2)"
    by simp
qed

text \<open>
  What one iteration of the loop stores under the key of its item, or the exception it
  raises: the four branches of the loop body.
\<close>

definition merge_item :: "pydict \<Rightarrow> pydict \<Rightarrow> string \<times> pyval \<Rightarrow> error + pyval" where
  "merge_item d1 d2 kv =
     (if \<not> dict_contains d1 (fst kv) then dict_getitem d2 (fst kv)
      else if \<not> dict_contains d2 (fst kv) then Inr (snd kv)
      else if is_dict (snd kv) then
        (case dict_getitem d2 (fst kv) of
           Inl e \<Rightarrow> Inl e
         | Inr v_dict2 \<Rightarrow> merge_results (snd kv) v_dict2)
      else Inr (snd kv))"


section \<open>Step results\<close>

text \<open>
  Modelled from the spec: the class \<open>StepResult\<close> (module \<open>tssc.step_result\<close>) is not
  among the sources. A StageResult has an identity \<open>(stage_name, sub_stage_name)\<close>, the
  sub-stage name being a string or absent, an implementer name, a success flag, a message
  and a mapping from artifact names to artifacts. The store hands \<open>artifacts\<close> to
  \<open>merge_results\<close> and calls \<open>update\<close> on it, so it is a dictionary.
\<close>

record step_result =
  step_name :: string
  sub_step_name :: "string option"
  sub_step_implementer_name :: string
  success :: bool
  message :: string
  artifacts :: pydict

text \<open>
  Modelled from the spec: \<open>StepResult.get_artifact_value(name)\<close>, missing with the class.
  An artifact is a mapping with the keys \<open>description\<close>, \<open>type\<close> and \<open>value\<close>; the
  result is the \<open>value\<close> of the artifact of that name, and \<open>None\<close> when there is none.
\<close>

definition step_result_get_artifact_value :: "step_result \<Rightarrow> string \<Rightarrow> pyval" where
  "step_result_get_artifact_value sr name =
     (case map_of (artifacts sr) name of
        Some (PyDict a) \<Rightarrow> (case map_of a ''value'' of None \<Rightarrow> PyNone | Some v \<Rightarrow> v)
      | _ \<Rightarrow> PyNone)"

text \<open>
  Modelled from the spec: \<open>StepResult.get_sub_step_result()\<close>, missing with the class:
  the rendered entry of the wire shape, with the key labels the docstring of
  \<open>WorkflowResult.get_step_result\<close> shows. An absent sub-stage name renders as the empty
  string.
\<close>

definition sub_step_key :: "step_result \<Rightarrow> string" where
  "sub_step_key sr = (case sub_step_name sr of None \<Rightarrow> [] | Some s \<Rightarrow> s)"

definition get_sub_step_result :: "step_result \<Rightarrow> pyval" where
  "get_sub_step_result sr =
     PyDict [(''step-implementer-name'', PyStr (sub_step_implementer_name sr)),
             (''sub-step-name'', PyStr (sub_step_key sr)),
             (''success'', PyBool (success sr)),
             (''message'', PyStr (message sr)),
             (''artifacts'', PyDict (artifacts sr))]"

text \<open>
  Modelled from the spec: \<open>StepResult.get_step_result()\<close>, missing with the class: the
  rendered entry under its stage name and its sub-stage name.
\<close>

definition step_result_get_step_result :: "step_result \<Rightarrow> pyval" where
  "step_result_get_step_result sr =
     PyDict [(step_name sr, PyDict [(sub_step_key sr, get_sub_step_result sr)])]"

text \<open>
  Modelled from the spec: the constructor of \<open>StepResult\<close> and \<open>add_artifact\<close>, missing
  with the class. A new result has succeeded, has an empty message and no artifacts; an
  artifact is stored under its name as a mapping of its description, its kind and its
  value, here a string of kind \<open>str\<close> with an empty description.
\<close>

definition StepResult_init :: "string \<Rightarrow> string option \<Rightarrow> string \<Rightarrow> step_result" where
  "StepResult_init sn ssn impl =
     \<lparr>step_name = sn, sub_step_name = ssn, sub_step_implementer_name = impl,
      success = True, message = [], artifacts = []\<rparr>"

definition add_artifact :: "step_result \<Rightarrow> string \<Rightarrow> string \<Rightarrow> step_result" where
  "add_artifact sr name v =
     sr\<lparr>artifacts := dict_setitem (artifacts sr) name
           (PyDict [(''description'', PyStr []), (''type'', PyStr ''str''),
                    (''value'', PyStr v)])\<rparr>"

text \<open>The identity of an entry: its stage name and its sub-stage name.\<close>

definition identity :: "step_result \<Rightarrow> string \<times> string option" where
  "identity sr = (step_name sr, sub_step_name sr)"

text \<open>
  Modelled from the spec: the data model of an artifact, whose value is a string. An
  entry whose artifacts all have this shape never answers \<open>None\<close> for an artifact it
  has.
\<close>

definition is_artifact :: "pyval \<Rightarrow> bool" where
  "is_artifact v =
     (case v of
        PyDict a \<Rightarrow> (case map_of a ''value'' of Some (PyStr s) \<Rightarrow> True | _ \<Rightarrow> False)
      | _ \<Rightarrow> False)"

definition artifacts_ok :: "step_result \<Rightarrow> bool" where
  "artifacts_ok sr = list_all (\<lambda>(name, v). is_artifact v) (artifacts sr)"

text \<open>The objects a caller can pass where a \<open>StepResult\<close> or a \<open>WorkflowResult\<close> is expected.\<close>

datatype pyobj =
    ObjStepResult step_result
  | ObjWorkflowResult "step_result list"
  | ObjOther pyval

section \<open>The workflow list\<close>

text \<open>
  A \<open>WorkflowResult\<close> holds one field, the list \<open>workflow_list\<close>; the methods take it
  and return the new one. The constructor gives the empty list.
\<close>

type_synonym workflow_list = "step_result list"

definition WorkflowResult_init :: workflow_list where
  "WorkflowResult_init = []"

text \<open>
  \<open>get_artifact_value(artifact, step_name, sub_step_name)\<close>: three loops, each carrying
  the local \<open>value\<close>, which starts as \<open>None\<close> and is what the method returns.
\<close>

fun scan_step_sub :: "workflow_list \<Rightarrow> string \<Rightarrow> string \<Rightarrow> string \<Rightarrow> pyval \<Rightarrow> pyval" where
  "scan_step_sub [] artifact sn ssn v = v"
| "scan_step_sub (sr # rest) artifact sn ssn v =
     (if step_name sr = sn then
        (if sub_step_name sr = Some ssn then step_result_get_artifact_value sr artifact
         else scan_step_sub rest artifact sn ssn v)
      else scan_step_sub rest artifact sn ssn v)"

fun scan_step :: "workflow_list \<Rightarrow> string \<Rightarrow> string \<Rightarrow> pyval \<Rightarrow> pyval" where
  "scan_step [] artifact sn v = v"
| "scan_step (sr # rest) artifact sn v =
     (if step_name sr = sn then
        (let v' = step_result_get_artifact_value sr artifact
         in if v' \<noteq> PyNone then v' else scan_step rest artifact sn v')
      else scan_step rest artifact sn v)"

fun scan_all :: "workflow_list \<Rightarrow> string \<Rightarrow> pyval \<Rightarrow> pyval" where
  "scan_all [] artifact v = v"
| "scan_all (sr # rest) artifact v =
     (let v' = step_result_get_artifact_value sr artifact
      in if v' \<noteq> PyNone then v' else scan_all rest artifact v')"

definition get_artifact_value ::
  "workflow_list \<Rightarrow> string \<Rightarrow> string option \<Rightarrow> string option \<Rightarrow> pyval" where
  "get_artifact_value wl artifact sn_opt ssn_opt =
     (case sn_opt of
        Some sn \<Rightarrow>
          (case ssn_opt of
             Some ssn \<Rightarrow> scan_step_sub wl artifact sn ssn PyNone
           | None \<Rightarrow> scan_step wl artifact sn PyNone)
      | None \<Rightarrow> scan_all wl artifact PyNone)"

text \<open>\<open>get_step_result_by_step_name\<close>: the first entry with that identity, or \<open>None\<close>.\<close>

fun get_step_result_by_step_name ::
  "workflow_list \<Rightarrow> string \<Rightarrow> string option \<Rightarrow> step_result option" where
  "get_step_result_by_step_name [] sn ssn = None"
| "get_step_result_by_step_name (current # rest) sn ssn =
     (if step_name current = sn then
        (if sub_step_name current = ssn then Some current
         else get_step_result_by_step_name rest sn ssn)
      else get_step_result_by_step_name rest sn ssn)"

text \<open>\<open>del xs[i]\<close>, for an index in range.\<close>

definition list_delitem :: "'a list \<Rightarrow> nat \<Rightarrow> 'a list" where
  "list_delitem xs i = take i xs @ drop (Suc i) xs"

text \<open>
  \<open>delete_step_result_by_name(step_name)\<close>. The loop is
  \<open>for i, current in enumerate(self.workflow_list)\<close> with \<open>del self.workflow_list[i]\<close>
  in its body: the list iterator reads position \<open>i\<close> of the list as it is then, and
  stops when \<open>i\<close> reaches its length. After a deletion the next element read is the one
  that followed the successor of the deleted one. The test is on \<open>step_name\<close> alone.
\<close>

function delete_loop :: "nat \<Rightarrow> string \<Rightarrow> workflow_list \<Rightarrow> workflow_list" where
  "delete_loop i sn wl =
     (if i < length wl then
        (if step_name (wl ! i) = sn then delete_loop (Suc i) sn (list_delitem wl i)
         else delete_loop (Suc i) sn wl)
      else wl)"
  by pat_completeness auto
termination
  by (relation "measure (\<lambda>(i, sn, wl). Suc (length wl) - i)")
     (auto simp: list_delitem_def)

declare delete_loop.simps [simp del]

definition delete_step_result_by_name :: "workflow_list \<Rightarrow> string \<Rightarrow> workflow_list" where
  "delete_step_result_by_name wl sn = delete_loop 0 sn wl"

text \<open>
  \<open>add_step_result(step_result)\<close>. An exception leaves the list as it was: the merge is
  the only call that can raise, and it comes before the first mutation. A \<open>StepResult\<close>
  is truthy (the spec gives it no length and no truth value), so \<open>if step_old\<close> asks
  whether an entry was found. \<open>step_result.artifacts.update(merged)\<close> changes the
  object that is then appended.
\<close>

definition add_step_result :: "workflow_list \<Rightarrow> pyobj \<Rightarrow> error + workflow_list" where
  "add_step_result wl obj =
     (case obj of
        ObjStepResult sr \<Rightarrow>
          (case get_step_result_by_step_name wl (step_name sr) (sub_step_name sr) of
             Some step_old \<Rightarrow>
               (case merge_results (PyDict (artifacts sr)) (PyDict (artifacts step_old)) of
                  Inl e \<Rightarrow> Inl e
                | Inr (PyDict merged) \<Rightarrow>
                    Inr (delete_step_result_by_name wl (step_name sr)
                         @ [sr\<lparr>artifacts := dict_update (artifacts sr) merged\<rparr>])
                | Inr v \<Rightarrow> Inl TypeError)
           | None \<Rightarrow> Inr (wl @ [sr]))
      | _ \<Rightarrow> Inl (TSSCException None))"

text \<open>A sequence of \<open>add_step_result\<close> calls; the first exception ends it.\<close>

fun add_step_results :: "workflow_list \<Rightarrow> pyobj list \<Rightarrow> error + workflow_list" where
  "add_step_results wl [] = Inr wl"
| "add_step_results wl (obj # objs) =
     (case add_step_result wl obj of Inl e \<Rightarrow> Inl e | Inr wl' \<Rightarrow> add_step_results wl' objs)"

text \<open>
  \<open>get_all_step_results()\<close>: the rendered entries folded with \<open>merge_results\<close>, the
  accumulated dictionary in the place of \<open>dict1\<close>.
\<close>

fun merge_all :: "pyval \<Rightarrow> workflow_list \<Rightarrow> error + pyval" where
  "merge_all all_results [] = Inr all_results"
| "merge_all all_results (i # rest) =
     (case merge_results all_results (step_result_get_step_result i) of
        Inl e \<Rightarrow> Inl e
      | Inr all_results' \<Rightarrow> merge_all all_results' rest)"

definition get_all_step_results :: "workflow_list \<Rightarrow> error + pyval" where
  "get_all_step_results wl =
     (case merge_all (PyDict []) wl of
        Inl e \<Rightarrow> Inl e
      | Inr all_results \<Rightarrow> Inr (PyDict [(''tssc-results'', all_results)]))"

section \<open>Files\<close>

text \<open>
  The file system is a map from paths to nodes, a file holding its bytes. Paths are taken
  as written: the model is of paths in normal form (no trailing slash, no repeated slash,
  no \<open>.\<close> or \<open>..\<close> component), the root always exists, and a relative path with no
  directory part lives in the current directory, which always exists. Permissions are not
  modelled. Every operation returns the file system it leaves behind, also when it raises.
\<close>

datatype fnode = Dir | File "nat list"

type_synonym filesystem = "string \<Rightarrow> fnode option"

definition lookup :: "filesystem \<Rightarrow> string \<Rightarrow> fnode option" where
  "lookup fs p = (if p = [] then None else if p = ''/'' then Some Dir else fs p)"

text \<open>
  \<open>os.path.split\<close> and \<open>os.path.dirname\<close> of \<open>posixpath\<close>: the head is everything up to
  the last slash, with its trailing slashes stripped unless it consists of slashes only.
\<close>

definition os_path_split :: "string \<Rightarrow> string \<times> string" where
  "os_path_split p =
     (let tail = rev (takeWhile (\<lambda>c. c \<noteq> CHR ''/'') (rev p));
          head = rev (dropWhile (\<lambda>c. c \<noteq> CHR ''/'') (rev p))
      in (if head \<noteq> [] \<and> dropWhile (\<lambda>c. c = CHR ''/'') head \<noteq> []
          then rev (dropWhile (\<lambda>c. c = CHR ''/'') (rev head)) else head, tail))"

definition os_path_dirname :: "string \<Rightarrow> string" where
  "os_path_dirname p = fst (os_path_split p)"

definition os_path_exists :: "filesystem \<Rightarrow> string \<Rightarrow> bool" where
  "os_path_exists fs p = (lookup fs p \<noteq> None)"

definition os_path_isfile :: "filesystem \<Rightarrow> string \<Rightarrow> bool" where
  "os_path_isfile fs p = (case lookup fs p of Some (File c) \<Rightarrow> True | _ \<Rightarrow> False)"


text \<open>\<open>os.path.getsize\<close>; the source asks for the size of regular files only.\<close>

definition os_path_getsize :: "filesystem \<Rightarrow> string \<Rightarrow> error + nat" where
  "os_path_getsize fs p =
     (case lookup fs p of
        None \<Rightarrow> Inl FileNotFoundError
      | Some Dir \<Rightarrow> Inr 0
      | Some (File c) \<Rightarrow> Inr (length c))"

text \<open>
  What a path needs before a node can be created under it: its directory part is empty
  (the current directory) or names a directory.
\<close>

definition check_parent :: "filesystem \<Rightarrow> string \<Rightarrow> error option" where
  "check_parent fs p =
     (let parent = os_path_dirname p
      in if parent = [] then None
         else (case lookup fs parent of
                 None \<Rightarrow> Some FileNotFoundError
               | Some (File c) \<Rightarrow> Some NotADirectoryError
               | Some Dir \<Rightarrow> None))"

definition os_mkdir :: "filesystem \<Rightarrow> string \<Rightarrow> (error + unit) \<times> filesystem" where
  "os_mkdir fs p =
     (if p = [] then (Inl FileNotFoundError, fs)
      else if lookup fs p \<noteq> None then (Inl FileExistsError, fs)
      else (case check_parent fs p of
              Some e \<Rightarrow> (Inl e, fs)
            | None \<Rightarrow> (Inr (), fs(p \<mapsto> Dir))))"

text \<open>
  \<open>os.makedirs(name)\<close> as the standard library writes it: split the name, create the
  head first when it is missing, then \<open>mkdir(name)\<close>. A \<open>FileExistsError\<close> from the
  recursive call is swallowed. (The library's shortcut for a name ending in the
  component \<open>.\<close> is left out: such a name is not in normal form.)
\<close>

function os_makedirs :: "filesystem \<Rightarrow> string \<Rightarrow> (error + unit) \<times> filesystem" where
  "os_makedirs fs name =
     (let ht = (if snd (os_path_split name) = [] then os_path_split (fst (os_path_split name))
                else os_path_split name)
      in if fst ht \<noteq> [] \<and> snd ht \<noteq> [] \<and> \<not> os_path_exists fs (fst ht) then
           (case os_makedirs fs (fst ht) of
              (Inl FileExistsError, fs') \<Rightarrow> os_mkdir fs' name
            | (Inl e, fs') \<Rightarrow> (Inl e, fs')
            | (Inr u, fs') \<Rightarrow> os_mkdir fs' name)
         else os_mkdir fs name)"
  by pat_completeness auto
termination
proof (relation "measure (\<lambda>(fs, name). length name)")
  show "wf (measure (\<lambda>(fs, name). length name))" by simp
next
  fix fs :: filesystem and name :: string and ht :: "string \<times> string"
  assume ht: "ht = (if snd (os_path_split name) = [] then os_path_split (fst (os_path_split name))
                    else os_path_split name)"
    and c: "fst ht \<noteq> [] \<and> snd ht \<noteq> [] \<and> \<not> os_path_exists fs (fst ht)"
  have le: "\<And>q. length (fst (os_path_split q)) + length (snd (os_path_split q)) \<le> length q"
  proof -
    fix q :: string
    define hd0 where "hd0 = rev (dropWhile (\<lambda>c. c \<noteq> CHR ''/'') (rev q))"
    define tl0 where "tl0 = rev (takeWhile (\<lambda>c. c \<noteq> CHR ''/'') (rev q))"
    have sum: "length hd0 + length tl0 = length q"
    proof -
      have "length (takeWhile (\<lambda>c. c \<noteq> CHR ''/'') (rev q)) + length (dropWhile (\<lambda>c. c \<noteq> CHR ''/'') (rev q))
            = length (takeWhile (\<lambda>c. c \<noteq> CHR ''/'') (rev q) @ dropWhile (\<lambda>c. c \<noteq> CHR ''/'') (rev q))"
        by (simp only: length_append)
      also have "\<dots> = length q"
        by (simp only: takeWhile_dropWhile_id length_rev)
      finally show ?thesis by (simp add: hd0_def tl0_def)
    qed
    have strip: "length (rev (dropWhile (\<lambda>c. c = CHR ''/'') (rev hd0))) \<le> length hd0"
      using length_dropWhile_le [of "\<lambda>c. c = CHR ''/''" "rev hd0"] by simp
    have split: "os_path_split q =
        (if hd0 \<noteq> [] \<and> dropWhile (\<lambda>c. c = CHR ''/'') hd0 \<noteq> []
         then rev (dropWhile (\<lambda>c. c = CHR ''/'') (rev hd0)) else hd0, tl0)"
      by (simp only: os_path_split_def Let_def hd0_def tl0_def)
    show "length (fst (os_path_split q)) + length (snd (os_path_split q)) \<le> length q"
    proof (cases "hd0 \<noteq> [] \<and> dropWhile (\<lambda>c. c = CHR ''/'') hd0 \<noteq> []")
      case True
      then have "os_path_split q = (rev (dropWhile (\<lambda>c. c = CHR ''/'') (rev hd0)), tl0)"
        using split by simp
      then show ?thesis using sum strip by simp
    next
      case False
      then have "os_path_split q = (hd0, tl0)"
        using split by (simp only: if_False)
      then show ?thesis using sum by simp
    qed
  qed
  have "length (fst ht) < length name"
  proof (cases "snd (os_path_split name) = []")
    case True
    then have "ht = os_path_split (fst (os_path_split name))" using ht by simp
    then have "length (fst ht) + length (snd ht) \<le> length (fst (os_path_split name))"
      using le by simp
    moreover have "length (fst (os_path_split name)) \<le> length name"
      using le [of name] by simp
    moreover have "0 < length (snd ht)" using c by simp
    ultimately show ?thesis by linarith
  next
    case False
    then have "ht = os_path_split name" using ht by simp
    then have "length (fst ht) + length (snd ht) \<le> length name"
      using le by simp
    moreover have "0 < length (snd ht)" using c by simp
    ultimately show ?thesis by linarith
  qed
  then show "((fs, fst ht), fs, name) \<in> measure (\<lambda>(fs, name). length name)"
    by simp
qed

declare os_makedirs.simps [simp del]

text \<open>
  \<open>open(p, 'wb')\<close> creates the file or cuts it to length zero; \<open>open(p, 'rb')\<close> gives
  the bytes of a regular file.
\<close>

definition open_wb :: "filesystem \<Rightarrow> string \<Rightarrow> (error + unit) \<times> filesystem" where
  "open_wb fs p =
     (if p = [] then (Inl FileNotFoundError, fs)
      else if lookup fs p = Some Dir then (Inl IsADirectoryError, fs)
      else (case check_parent fs p of
              Some e \<Rightarrow> (Inl e, fs)
            | None \<Rightarrow> (Inr (), fs(p \<mapsto> File []))))"

definition open_rb :: "filesystem \<Rightarrow> string \<Rightarrow> error + nat list" where
  "open_rb fs p =
     (case lookup fs p of
        None \<Rightarrow> Inl FileNotFoundError
      | Some Dir \<Rightarrow> Inl IsADirectoryError
      | Some (File c) \<Rightarrow> Inr c)"

text \<open>
  The \<open>pickle\<close> module is a parameter: \<open>pickle_dumps\<close> gives the bytes \<open>pickle.dump\<close>
  writes for an object, or raises; \<open>pickle_loads\<close> gives the object \<open>pickle.load\<close> reads
  from the bytes of a file, or raises.
\<close>

record pickle_codec =
  pickle_dumps :: "pyobj \<Rightarrow> error + nat list"
  pickle_loads :: "nat list \<Rightarrow> error + pyobj"

text \<open>\<open>folder_create(filename)\<close>.\<close>

definition folder_create :: "filesystem \<Rightarrow> string \<Rightarrow> (error + unit) \<times> filesystem" where
  "folder_create fs filename =
     (let path = os_path_dirname filename
      in if path \<noteq> [] \<and> \<not> os_path_exists fs path
         then os_makedirs fs (os_path_dirname filename)
         else (Inr (), fs))"

text \<open>
  \<open>load_from_pickle_file(pickle_filename)\<close>. Everything is inside one \<open>try\<close>, whose
  handler turns any exception, the \<open>TSSCException\<close> of the type check included, into a
  \<open>TSSCException\<close> raised from it.
\<close>

definition load_from_pickle_file ::
  "pickle_codec \<Rightarrow> filesystem \<Rightarrow> string \<Rightarrow> (error + workflow_list) \<times> filesystem" where
  "load_from_pickle_file P fs pickle_filename =
     (case folder_create fs pickle_filename of
        (Inl error, fs') \<Rightarrow> (Inl (TSSCException (Some error)), fs')
      | (Inr u, fs') \<Rightarrow>
          if \<not> os_path_isfile fs' pickle_filename then (Inr WorkflowResult_init, fs')
          else
            (case os_path_getsize fs' pickle_filename of
               Inl error \<Rightarrow> (Inl (TSSCException (Some error)), fs')
             | Inr sz \<Rightarrow>
                 if sz = 0 then (Inr WorkflowResult_init, fs')
                 else
                   (case open_rb fs' pickle_filename of
                      Inl error \<Rightarrow> (Inl (TSSCException (Some error)), fs')
                    | Inr content \<Rightarrow>
                        (case pickle_loads P content of
                           Inl error \<Rightarrow> (Inl (TSSCException (Some error)), fs')
                         | Inr (ObjWorkflowResult workflow_result) \<Rightarrow> (Inr workflow_result, fs')
                         | Inr other \<Rightarrow>
                             (Inl (TSSCException (Some (TSSCException None))), fs')))))"

text \<open>
  \<open>write_to_pickle_file(pickle_filename)\<close>. A \<open>dump\<close> that raises leaves the file that
  \<open>open\<close> has just cut to length zero.
\<close>

definition write_to_pickle_file ::
  "pickle_codec \<Rightarrow> filesystem \<Rightarrow> workflow_list \<Rightarrow> string \<Rightarrow> (error + unit) \<times> filesystem" where
  "write_to_pickle_file P fs wl pickle_filename =
     (case folder_create fs pickle_filename of
        (Inl error, fs') \<Rightarrow> (Inl (RuntimeError error), fs')
      | (Inr u, fs') \<Rightarrow>
          (case open_wb fs' pickle_filename of
             (Inl error, fs'') \<Rightarrow> (Inl (RuntimeError error), fs'')
           | (Inr u', fs'') \<Rightarrow>
               (case pickle_dumps P (ObjWorkflowResult wl) of
                  Inl error \<Rightarrow> (Inl (RuntimeError error), fs'')
                | Inr bytes \<Rightarrow> (Inr (), fs''(pickle_filename \<mapsto> File bytes)))))"

section \<open>Reruns of a stage\<close>

text \<open>
  The deletion loop leaves a list with no entry of the stage as it is, and removes a
  single entry of the stage when none follows from the second position after it. So a
  rerun of a stage that has one entry in the store replaces that entry: it is removed,
  the others keep their order, and the new result, with the merged artifacts, goes to the
  end.
\<close>

lemma delete_loop_no_match:
  "\<forall>r \<in> set (drop i wl). step_name r \<noteq> sn \<Longrightarrow> delete_loop i sn wl = wl"
proof (induction i sn wl rule: delete_loop.induct)
  case (1 i sn wl)
  show ?case
  proof (cases "i < length wl")
    case False
    then show ?thesis by (simp add: delete_loop.simps)
  next
    case True
    then have "wl ! i \<in> set (drop i wl)"
      by (metis Cons_nth_drop_Suc list.set_intros(1))
    with "1.prems" have ne: "step_name (wl ! i) \<noteq> sn" by blast
    have "set (drop (Suc i) wl) \<subseteq> set (drop i wl)"
      by (rule set_drop_subset_set_drop) simp
    with "1.prems" have "\<forall>r \<in> set (drop (Suc i) wl). step_name r \<noteq> sn" by blast
    with "1.IH"(2) [OF True ne] have "delete_loop (Suc i) sn wl = wl" .
    with True ne show ?thesis by (subst delete_loop.simps) simp
  qed
qed

lemma delete_loop_one_match:
  assumes "i \<le> length xs"
    and "\<forall>r \<in> set (drop i xs). step_name r \<noteq> sn"
    and "step_name y = sn"
    and "\<forall>r \<in> set (tl zs). step_name r \<noteq> sn"
  shows "delete_loop i sn (xs @ y # zs) = xs @ zs"
  using assms
proof (induction "length xs - i" arbitrary: i)
  case 0
  then have i: "i = length xs" by simp
  have del: "list_delitem (xs @ y # zs) i = xs @ zs"
    by (simp add: list_delitem_def i)
  have "drop (Suc i) (xs @ zs) = tl zs"
    by (simp add: i drop_Suc tl_drop)
  then have "delete_loop (Suc i) sn (xs @ zs) = xs @ zs"
    using "0.prems"(4) by (intro delete_loop_no_match) simp
  then show ?case
    using del "0.prems"(3) by (subst delete_loop.simps) (simp add: i)
next
  case (Suc n)
  then have lt: "i < length xs" by simp
  then have "xs ! i \<in> set (drop i xs)"
    by (metis Cons_nth_drop_Suc list.set_intros(1))
  with Suc.prems(2) have ne: "step_name ((xs @ y # zs) ! i) \<noteq> sn"
    using lt by (simp add: nth_append)
  have "set (drop (Suc i) xs) \<subseteq> set (drop i xs)"
    by (rule set_drop_subset_set_drop) simp
  with Suc.prems(2) have "\<forall>r \<in> set (drop (Suc i) xs). step_name r \<noteq> sn" by blast
  moreover have "n = length xs - Suc i" using Suc.hyps(2) by simp
  moreover have "Suc i \<le> length xs" using lt by simp
  ultimately have "delete_loop (Suc i) sn (xs @ y # zs) = xs @ zs"
    using Suc.hyps(1) Suc.prems(3,4) by blast
  then show ?case
    using lt ne by (subst delete_loop.simps) simp
qed

lemma get_step_result_by_step_name_first:
  assumes "\<forall>r \<in> set xs. step_name r \<noteq> sn" and "step_name y = sn" and "sub_step_name y = ssn"
  shows "get_step_result_by_step_name (xs @ y # zs) sn ssn = Some y"
  using assms by (induction xs) auto

lemma add_step_result_only_entry_of_step:
  assumes "\<forall>r \<in> set xs \<union> set zs. step_name r \<noteq> step_name sr"
    and "identity y = identity sr"
    and "merge_results (PyDict (artifacts sr)) (PyDict (artifacts y)) = Inr (PyDict merged)"
  shows "add_step_result (xs @ y # zs) (ObjStepResult sr)
         = Inr (xs @ zs @ [sr\<lparr>artifacts := dict_update (artifacts sr) merged\<rparr>])"
proof -
  from assms(2) have y: "step_name y = step_name sr" "sub_step_name y = sub_step_name sr"
    by (simp_all add: identity_def)
  have g: "get_step_result_by_step_name (xs @ y # zs) (step_name sr) (sub_step_name sr) = Some y"
    using assms(1) y by (intro get_step_result_by_step_name_first) auto
  have "\<forall>r \<in> set (tl zs). step_name r \<noteq> step_name sr"
    using assms(1) by (cases zs) auto
  then have d: "delete_step_result_by_name (xs @ y # zs) (step_name sr) = xs @ zs"
    unfolding delete_step_result_by_name_def
    using assms(1) y by (intro delete_loop_one_match) auto
  show ?thesis
    by (simp add: add_step_result_def g assms(3) d del: merge_results.simps)
qed

text \<open>
  C3, identity uniqueness: no sequence of \<open>add_step_result\<close> calls on an empty store
  leaves two entries with the same identity. The code at the sequence
  \<open>(A, x), (A, y), (A, y)\<close>: the third call finds the old \<open>(A, y)\<close>, and the deletion loop
  removes \<open>(A, x)\<close> at index 0, then reads index 1 of a list of length 1 and stops. The
  old \<open>(A, y)\<close> stays and the new one is appended: two entries with one identity.
\<close>

theorem add_step_result_duplicates_identity:
  "add_step_results WorkflowResult_init
     [ObjStepResult (add_artifact (StepResult_init ''A'' (Some ''x'') ''i'') ''v'' ''1''),
      ObjStepResult (add_artifact (StepResult_init ''A'' (Some ''y'') ''i'') ''v'' ''2''),
      ObjStepResult (add_artifact (StepResult_init ''A'' (Some ''y'') ''i'') ''v'' ''3'')]
   = Inr [add_artifact (StepResult_init ''A'' (Some ''y'') ''i'') ''v'' ''2'',
          add_artifact (StepResult_init ''A'' (Some ''y'') ''i'') ''v'' ''3'']
   \<and> \<not> distinct (map identity
          [add_artifact (StepResult_init ''A'' (Some ''y'') ''i'') ''v'' ''2'',
           add_artifact (StepResult_init ''A'' (Some ''y'') ''i'') ''v'' ''3''])"
  by code_simp

text \<open>
  C4, the frame of an upsert: only the prior entry of the same identity is removed, the
  others stay in their order. The code at the store \<open>(build, y), (test, t), (build, x)\<close>
  and a new \<open>(build, y)\<close>: the deletion compares stage names only, so \<open>(build, x)\<close>,
  an entry of another identity, is removed with the prior \<open>(build, y)\<close>.
\<close>

theorem add_step_result_removes_other_sub_step:
  "add_step_result
     [add_artifact (StepResult_init ''build'' (Some ''y'') ''i'') ''v'' ''1'',
      add_artifact (StepResult_init ''test'' (Some ''t'') ''i'') ''v'' ''2'',
      add_artifact (StepResult_init ''build'' (Some ''x'') ''i'') ''v'' ''3'']
     (ObjStepResult (add_artifact (StepResult_init ''build'' (Some ''y'') ''i'') ''v'' ''4''))
   = Inr [add_artifact (StepResult_init ''test'' (Some ''t'') ''i'') ''v'' ''2'',
          add_artifact (StepResult_init ''build'' (Some ''y'') ''i'') ''v'' ''4'']"
  by code_simp

text \<open>
  C9, idempotence of the upsert: adding the same result twice renders like adding it
  once. The code at the store \<open>(A, x)\<close> and the result \<open>(A, y)\<close>: the first call appends;
  the second finds \<open>(A, y)\<close>, and the deletion removes \<open>(A, x)\<close> at index 0 and stops.
  The snapshot after one call has the sub-stages \<open>x\<close> and \<open>y\<close>, after two calls only \<open>y\<close>.
\<close>

theorem add_step_result_twice_loses_entry:
  "add_step_results
     [add_artifact (StepResult_init ''A'' (Some ''x'') ''i'') ''v'' ''1'']
     [ObjStepResult (add_artifact (StepResult_init ''A'' (Some ''y'') ''i'') ''v'' ''2'')]
   = Inr [add_artifact (StepResult_init ''A'' (Some ''x'') ''i'') ''v'' ''1'',
          add_artifact (StepResult_init ''A'' (Some ''y'') ''i'') ''v'' ''2'']
   \<and> add_step_results
     [add_artifact (StepResult_init ''A'' (Some ''x'') ''i'') ''v'' ''1'']
     [ObjStepResult (add_artifact (StepResult_init ''A'' (Some ''y'') ''i'') ''v'' ''2''),
      ObjStepResult (add_artifact (StepResult_init ''A'' (Some ''y'') ''i'') ''v'' ''2'')]
   = Inr [add_artifact (StepResult_init ''A'' (Some ''y'') ''i'') ''v'' ''2'',
          add_artifact (StepResult_init ''A'' (Some ''y'') ''i'') ''v'' ''2'']
   \<and> get_all_step_results
        [add_artifact (StepResult_init ''A'' (Some ''x'') ''i'') ''v'' ''1'',
         add_artifact (StepResult_init ''A'' (Some ''y'') ''i'') ''v'' ''2'']
      = Inr (PyDict [(''tssc-results'', PyDict [(''A'', PyDict
          [(''y'', get_sub_step_result
                    (add_artifact (StepResult_init ''A'' (Some ''y'') ''i'') ''v'' ''2'')),
           (''x'', get_sub_step_result
                    (add_artifact (StepResult_init ''A'' (Some ''x'') ''i'') ''v'' ''1''))])])])
   \<and> get_all_step_results
        [add_artifact (StepResult_init ''A'' (Some ''y'') ''i'') ''v'' ''2'',
         add_artifact (StepResult_init ''A'' (Some ''y'') ''i'') ''v'' ''2'']
      = Inr (PyDict [(''tssc-results'', PyDict [(''A'', PyDict
          [(''y'', get_sub_step_result
                    (add_artifact (StepResult_init ''A'' (Some ''y'') ''i'') ''v'' ''2''))])])])"
  by code_simp

section \<open>What the merge returns\<close>

text \<open>Dictionaries with distinct keys stay so, and assignment is map update.\<close>

lemma map_of_dict_setitem: "map_of (dict_setitem d k v) = (map_of d)(k \<mapsto> v)"
  by (induction d) auto

lemma keys_dict_setitem: "fst ` set (dict_setitem d k v) = insert k (fst ` set d)"
proof -
  have "dom (map_of (dict_setitem d k v)) = insert k (dom (map_of d))"
    by (simp only: map_of_dict_setitem dom_fun_upd option.distinct if_False)
  then show ?thesis by (simp only: dom_map_of_conv_image_fst)
qed

lemma distinct_dict_setitem:
  "distinct (map fst d) \<Longrightarrow> distinct (map fst (dict_setitem d k v))"
proof (induction d)
  case Nil
  then show ?case by simp
next
  case (Cons a d)
  have "fst a \<notin> fst ` set (dict_setitem d k v)" if "fst a \<noteq> k"
    using that Cons.prems by (simp add: keys_dict_setitem)
  with Cons show ?case by (cases a) auto
qed

lemma dict_update_Cons:
  "dict_update d ((k, v) # other) = dict_update (dict_setitem d k v) other"
  by (simp add: dict_update_def)

lemma dict_update_Nil: "dict_update d [] = d"
  by (simp add: dict_update_def)

lemma map_of_dict_update:
  "distinct (map fst other) \<Longrightarrow> map_of (dict_update d other) = map_of d ++ map_of other"
proof (induction other arbitrary: d)
  case Nil
  then show ?case by (simp add: dict_update_Nil)
next
  case (Cons a other)
  obtain k v where a: "a = (k, v)" by (cases a)
  have nk: "map_of other k = None"
    using Cons.prems a by (simp add: map_of_eq_None_iff)
  have 1: "map_of (dict_update d (a # other)) = (map_of d)(k \<mapsto> v) ++ map_of other"
    using Cons a by (simp add: dict_update_Cons map_of_dict_setitem)
  have 2: "((map_of d)(k \<mapsto> v) ++ map_of other) k' = (map_of d ++ map_of (a # other)) k'" for k'
    using nk a by (cases "map_of other k'") (auto simp: map_add_def)
  show ?case unfolding 1 using 2 by (rule ext)
qed

lemma keys_dict_update: "fst ` set (dict_update d other) = fst ` set d \<union> fst ` set other"
proof (induction other arbitrary: d)
  case Nil
  then show ?case by (simp add: dict_update_Nil)
next
  case (Cons a other)
  then show ?case by (cases a) (auto simp: dict_update_Cons keys_dict_setitem)
qed

lemma distinct_dict_update:
  "distinct (map fst d) \<Longrightarrow> distinct (map fst (dict_update d other))"
proof (induction other arbitrary: d)
  case Nil
  then show ?case by (simp add: dict_update_Nil)
next
  case (Cons a other)
  then show ?case by (cases a) (simp add: dict_update_Cons distinct_dict_setitem)
qed

text \<open>
  The loop of \<open>merge_results\<close>, with the value of each item computed by a function \<open>g\<close>:
  it returns when \<open>g\<close> returns for every item, and then holds, under each key, the
  value \<open>g\<close> gave.
\<close>

lemma fold_items_Inl:
  "fold (\<lambda>kv output. case output of Inl e \<Rightarrow> Inl e
          | Inr out \<Rightarrow> (case g kv of Inl e \<Rightarrow> Inl e | Inr x \<Rightarrow> Inr (dict_setitem out (fst kv) x)))
        xs (Inl e) = Inl e"
  by (induction xs) auto

lemma fold_items_returns:
  assumes "fold (\<lambda>kv output. case output of Inl e \<Rightarrow> Inl e
          | Inr out \<Rightarrow> (case g kv of Inl e \<Rightarrow> Inl e | Inr x \<Rightarrow> Inr (dict_setitem out (fst kv) x)))
        xs (Inr acc) = Inr out"
    and "distinct (map fst xs)" and "distinct (map fst acc)"
  shows "distinct (map fst out)
       \<and> fst ` set out = fst ` set acc \<union> fst ` set xs
       \<and> (\<forall>k. map_of xs k = None \<longrightarrow> map_of out k = map_of acc k)
       \<and> (\<forall>k v. map_of xs k = Some v \<longrightarrow> (\<exists>x. g (k, v) = Inr x \<and> map_of out k = Some x))"
  using assms
proof (induction xs arbitrary: acc)
  case Nil
  then show ?case by simp
next
  case (Cons a xs)
  obtain k v where a: "a = (k, v)" by (cases a)
  let ?f = "(\<lambda>kv output. case output of Inl e \<Rightarrow> Inl e
          | Inr out \<Rightarrow> (case g kv of Inl e \<Rightarrow> Inl e | Inr x \<Rightarrow> Inr (dict_setitem out (fst kv) x)))"
  obtain x where gx: "g (k, v) = Inr x"
  proof (cases "g (k, v)")
    case (Inl e)
    then have "fold ?f (a # xs) (Inr acc) = Inl e"
      using a by (simp add: fold_items_Inl)
    with Cons.prems(1) show ?thesis by simp
  next
    case (Inr x)
    then show ?thesis using that by simp
  qed
  have step: "fold ?f xs (Inr (dict_setitem acc k x)) = Inr out"
    using Cons.prems(1) a gx by simp
  have nk: "map_of xs k = None"
    using Cons.prems(2) a by (simp add: map_of_eq_None_iff)
  note ih = Cons.IH [OF step _ distinct_dict_setitem [OF Cons.prems(3)]]
  have dxs: "distinct (map fst xs)" using Cons.prems(2) by simp
  from ih [OF dxs] have
    1: "distinct (map fst out)"
    and 2: "fst ` set out = fst ` set (dict_setitem acc k x) \<union> fst ` set xs"
    and 3: "\<And>k'. map_of xs k' = None \<Longrightarrow> map_of out k' = map_of (dict_setitem acc k x) k'"
    and 4: "\<And>k' v'. map_of xs k' = Some v' \<Longrightarrow> (\<exists>x. g (k', v') = Inr x \<and> map_of out k' = Some x)"
    by auto
  have "fst ` set out = fst ` set acc \<union> fst ` set (a # xs)"
    using 2 a by (auto simp: keys_dict_setitem)
  moreover have "\<forall>k'. map_of (a # xs) k' = None \<longrightarrow> map_of out k' = map_of acc k'"
    using 3 a by (auto simp: map_of_dict_setitem split: if_splits)
  moreover have "\<forall>k' v'. map_of (a # xs) k' = Some v' \<longrightarrow> (\<exists>x. g (k', v') = Inr x \<and> map_of out k' = Some x)"
  proof (intro allI impI)
    fix k' v' assume m: "map_of (a # xs) k' = Some v'"
    show "\<exists>x. g (k', v') = Inr x \<and> map_of out k' = Some x"
    proof (cases "k' = k")
      case True
      with m a have "v' = v" by simp
      moreover have "map_of out k = Some x" using 3 [OF nk] by (simp add: map_of_dict_setitem)
      ultimately show ?thesis using gx True by simp
    next
      case False
      with m a have "map_of xs k' = Some v'" by simp
      then show ?thesis by (rule 4)
    qed
  qed
  ultimately show ?case using 1 by simp
qed

lemma fold_items_total:
  assumes "\<forall>kv \<in> set xs. \<exists>x. g kv = Inr x"
  shows "\<exists>out. fold (\<lambda>kv output. case output of Inl e \<Rightarrow> Inl e
          | Inr out \<Rightarrow> (case g kv of Inl e \<Rightarrow> Inl e | Inr x \<Rightarrow> Inr (dict_setitem out (fst kv) x)))
        xs (Inr acc) = Inr out"
  using assms
proof (induction xs arbitrary: acc)
  case Nil
  then show ?case by simp
next
  case (Cons a xs)
  then obtain x where "g a = Inr x" by auto
  with Cons show ?case by simp
qed

text \<open>
  On dictionaries with distinct keys, a merge that returns gives a dictionary over the
  union of the keys: a key of \<open>dict2\<close> alone keeps its value, a key of \<open>dict1\<close> alone
  keeps its value, a shared key whose \<open>dict1\<close> value is a dictionary holds the merge of
  the two values, and any other shared key holds the \<open>dict1\<close> value. The merge raises
  exactly when the merge below some shared key raises.
\<close>

lemma merge_results_loop:
  "merge_results (PyDict d1) (PyDict d2) =
     (case fold (\<lambda>kv output. case output of Inl e \<Rightarrow> Inl e
              | Inr out \<Rightarrow> (case merge_item d1 d2 kv of
                              Inl e \<Rightarrow> Inl e
                            | Inr x \<Rightarrow> Inr (dict_setitem out (fst kv) x)))
           (dict_update (dict_update [] d2) d1) (Inr [])
      of Inl e \<Rightarrow> Inl e | Inr output \<Rightarrow> Inr (PyDict output))"
proof -
  have "(\<lambda>(k_intersect, v_intersect) output.
                case output of
                  Inl e \<Rightarrow> Inl e
                | Inr out \<Rightarrow>
                    if \<not> dict_contains d1 k_intersect then
                      (case dict_getitem d2 k_intersect of
                         Inl e \<Rightarrow> Inl e
                       | Inr v_dict2 \<Rightarrow> Inr (dict_setitem out k_intersect v_dict2))
                    else if \<not> dict_contains d2 k_intersect then
                      Inr (dict_setitem out k_intersect v_intersect)
                    else if is_dict v_intersect then
                      (case dict_getitem d2 k_intersect of
                         Inl e \<Rightarrow> Inl e
                       | Inr v_dict2 \<Rightarrow>
                           (case merge_results v_intersect v_dict2 of
                              Inl e \<Rightarrow> Inl e
                            | Inr merged \<Rightarrow> Inr (dict_setitem out k_intersect merged)))
                    else Inr (dict_setitem out k_intersect v_intersect))
     = (\<lambda>kv output. case output of Inl e \<Rightarrow> Inl e
              | Inr out \<Rightarrow> (case merge_item d1 d2 kv of
                              Inl e \<Rightarrow> Inl e
                            | Inr x \<Rightarrow> Inr (dict_setitem out (fst kv) x)))"
    by (intro ext) (auto simp: merge_item_def split: sum.splits prod.splits)
  then show ?thesis by (simp only: merge_results.simps(1))
qed

lemma map_of_intersection:
  assumes "distinct (map fst d1)" "distinct (map fst d2)"
  shows "map_of (dict_update (dict_update [] d2) d1) = map_of d2 ++ map_of d1"
    and "distinct (map fst (dict_update (dict_update [] d2) d1))"
    and "fst ` set (dict_update (dict_update [] d2) d1) = fst ` set d1 \<union> fst ` set d2"
  using assms
  by (auto simp: map_of_dict_update distinct_dict_update keys_dict_update)

lemma merge_item_cases:
  assumes "(map_of d2 ++ map_of d1) k = Some v"
  shows "merge_item d1 d2 (k, v) =
     (case map_of d1 k of
        None \<Rightarrow> Inr v
      | Some v1 \<Rightarrow>
          (case map_of d2 k of
             None \<Rightarrow> Inr v1
           | Some v2 \<Rightarrow> if is_dict v1 then merge_results v1 v2 else Inr v1))"
  using assms
  by (auto simp: merge_item_def dict_contains_def dict_getitem_def map_add_def
           split: option.splits)

lemma merge_results_returns:
  assumes d1: "distinct (map fst d1)" and d2: "distinct (map fst d2)"
    and m: "merge_results (PyDict d1) (PyDict d2) = Inr r"
  shows "\<exists>out. r = PyDict out
       \<and> distinct (map fst out)
       \<and> fst ` set out = fst ` set d1 \<union> fst ` set d2
       \<and> (\<forall>k. map_of d1 k = None \<longrightarrow> map_of out k = map_of d2 k)
       \<and> (\<forall>k v1. map_of d1 k = Some v1 \<and> map_of d2 k = None \<longrightarrow> map_of out k = Some v1)
       \<and> (\<forall>k v1 v2. map_of d1 k = Some v1 \<and> map_of d2 k = Some v2 \<and> is_dict v1
             \<longrightarrow> (\<exists>merged. merge_results v1 v2 = Inr merged \<and> map_of out k = Some merged))
       \<and> (\<forall>k v1 v2. map_of d1 k = Some v1 \<and> map_of d2 k = Some v2 \<and> \<not> is_dict v1
             \<longrightarrow> map_of out k = Some v1)"
proof -
  let ?I = "dict_update (dict_update [] d2) d1"
  let ?f = "(\<lambda>kv output. case output of Inl e \<Rightarrow> Inl e
              | Inr out \<Rightarrow> (case merge_item d1 d2 kv of
                              Inl e \<Rightarrow> Inl e
                            | Inr x \<Rightarrow> Inr (dict_setitem out (fst kv) x)))"
  note I = map_of_intersection [OF d1 d2]
  from m have "(case fold ?f ?I (Inr []) of Inl e \<Rightarrow> Inl e | Inr output \<Rightarrow> Inr (PyDict output)) = Inr r"
    by (simp only: merge_results_loop)
  then obtain out where r: "r = PyDict out" and f: "fold ?f ?I (Inr []) = Inr out"
    by (auto split: sum.splits)
  from fold_items_returns [OF f I(2)] have
    1: "distinct (map fst out)"
    and 2: "fst ` set out = fst ` set ?I"
    and 3: "\<And>k. map_of ?I k = None \<Longrightarrow> map_of out k = None"
    and 4: "\<And>k v. map_of ?I k = Some v \<Longrightarrow> \<exists>x. merge_item d1 d2 (k, v) = Inr x \<and> map_of out k = Some x"
    by auto
  have a: "map_of out k = map_of d2 k" if "map_of d1 k = None" for k
  proof (cases "map_of d2 k")
    case None
    with that have "map_of ?I k = None" by (simp add: I(1) map_add_def)
    with None show ?thesis by (simp add: 3)
  next
    case (Some v2)
    with that have i: "map_of ?I k = Some v2" by (simp add: I(1) map_add_def)
    from 4 [OF i] merge_item_cases [of d2 d1 k v2] i that Some show ?thesis
      by (auto simp: I(1))
  qed
  have b: "map_of out k = Some v1" if "map_of d1 k = Some v1" "map_of d2 k = None" for k v1
  proof -
    from that have i: "map_of ?I k = Some v1" by (simp add: I(1) map_add_def)
    from 4 [OF i] merge_item_cases [of d2 d1 k v1] i that show ?thesis
      by (auto simp: I(1))
  qed
  have c: "\<exists>merged. merge_results v1 v2 = Inr merged \<and> map_of out k = Some merged"
    if "map_of d1 k = Some v1" "map_of d2 k = Some v2" "is_dict v1" for k v1 v2
  proof -
    from that have i: "map_of ?I k = Some v1" by (simp add: I(1) map_add_def)
    from 4 [OF i] merge_item_cases [of d2 d1 k v1] i that show ?thesis
      by (auto simp: I(1))
  qed
  have d: "map_of out k = Some v1"
    if "map_of d1 k = Some v1" "map_of d2 k = Some v2" "\<not> is_dict v1" for k v1 v2
  proof -
    from that have i: "map_of ?I k = Some v1" by (simp add: I(1) map_add_def)
    from 4 [OF i] merge_item_cases [of d2 d1 k v1] i that show ?thesis
      by (auto simp: I(1))
  qed
  show ?thesis
  proof (intro exI [of _ out] conjI)
    show "r = PyDict out" by (rule r)
    show "distinct (map fst out)" by (rule 1)
    show "fst ` set out = fst ` set d1 \<union> fst ` set d2" using 2 I(3) by simp
    show "\<forall>k. map_of d1 k = None \<longrightarrow> map_of out k = map_of d2 k"
      using a by simp
    show "\<forall>k v1. map_of d1 k = Some v1 \<and> map_of d2 k = None \<longrightarrow> map_of out k = Some v1"
      using b by simp
    show "\<forall>k v1 v2. map_of d1 k = Some v1 \<and> map_of d2 k = Some v2 \<and> is_dict v1
             \<longrightarrow> (\<exists>merged. merge_results v1 v2 = Inr merged \<and> map_of out k = Some merged)"
      using c by simp
    show "\<forall>k v1 v2. map_of d1 k = Some v1 \<and> map_of d2 k = Some v2 \<and> \<not> is_dict v1
             \<longrightarrow> map_of out k = Some v1"
      using d by simp
  qed
qed

lemma merge_results_raises_iff:
  assumes d1: "distinct (map fst d1)" and d2: "distinct (map fst d2)"
  shows "(\<exists>e. merge_results (PyDict d1) (PyDict d2) = Inl e) \<longleftrightarrow>
         (\<exists>k v1 v2. map_of d1 k = Some v1 \<and> map_of d2 k = Some v2 \<and> is_dict v1
                     \<and> (\<exists>e. merge_results v1 v2 = Inl e))"
proof
  assume "\<exists>e. merge_results (PyDict d1) (PyDict d2) = Inl e"
  then obtain e where e: "merge_results (PyDict d1) (PyDict d2) = Inl e" ..
  show "\<exists>k v1 v2. map_of d1 k = Some v1 \<and> map_of d2 k = Some v2 \<and> is_dict v1
                     \<and> (\<exists>e. merge_results v1 v2 = Inl e)"
  proof (rule ccontr)
    assume n: "\<not> ?thesis"
    let ?I = "dict_update (dict_update [] d2) d1"
    note I = map_of_intersection [OF d1 d2]
    have "\<forall>kv \<in> set ?I. \<exists>x. merge_item d1 d2 kv = Inr x"
    proof
      fix kv assume kv: "kv \<in> set ?I"
      obtain k v where [simp]: "kv = (k, v)" by (cases kv)
      from kv I(2) have i: "(map_of d2 ++ map_of d1) k = Some v"
        by (simp add: I(1) [symmetric])
      show "\<exists>x. merge_item d1 d2 kv = Inr x"
      proof (cases "map_of d1 k")
        case None
        then show ?thesis using merge_item_cases [OF i] by simp
      next
        case (Some v1)
        show ?thesis
        proof (cases "map_of d2 k")
          case None
          then show ?thesis using Some merge_item_cases [OF i] by simp
        next
          case (Some v2)
          show ?thesis
          proof (cases "is_dict v1")
            case False
            then show ?thesis using Some \<open>map_of d1 k = Some v1\<close> merge_item_cases [OF i] by simp
          next
            case True
            with n Some \<open>map_of d1 k = Some v1\<close> have "\<forall>e. merge_results v1 v2 \<noteq> Inl e" by blast
            then obtain x where "merge_results v1 v2 = Inr x"
              by (cases "merge_results v1 v2") auto
            then show ?thesis using True Some \<open>map_of d1 k = Some v1\<close> merge_item_cases [OF i] by simp
          qed
        qed
      qed
    qed
    from fold_items_total [OF this, of "[]"] obtain out where
      "fold (\<lambda>kv output. case output of Inl e \<Rightarrow> Inl e
              | Inr out \<Rightarrow> (case merge_item d1 d2 kv of
                              Inl e \<Rightarrow> Inl e
                            | Inr x \<Rightarrow> Inr (dict_setitem out (fst kv) x)))
           ?I (Inr []) = Inr out" ..
    then have "merge_results (PyDict d1) (PyDict d2) = Inr (PyDict out)"
      by (simp only: merge_results_loop sum.case)
    with e show False by simp
  qed
next
  assume "\<exists>k v1 v2. map_of d1 k = Some v1 \<and> map_of d2 k = Some v2 \<and> is_dict v1
                     \<and> (\<exists>e. merge_results v1 v2 = Inl e)"
  then obtain k v1 v2 e where k: "map_of d1 k = Some v1" "map_of d2 k = Some v2" "is_dict v1"
    "merge_results v1 v2 = Inl e" by blast
  show "\<exists>e. merge_results (PyDict d1) (PyDict d2) = Inl e"
  proof (cases "merge_results (PyDict d1) (PyDict d2)")
    case (Inl e')
    then show ?thesis by blast
  next
    case (Inr r)
    from merge_results_returns [OF d1 d2 Inr] obtain out where
      "\<forall>k v1 v2. map_of d1 k = Some v1 \<and> map_of d2 k = Some v2 \<and> is_dict v1
             \<longrightarrow> (\<exists>merged. merge_results v1 v2 = Inr merged \<and> map_of out k = Some merged)"
      by blast
    with k(1-3) have "\<exists>merged. merge_results v1 v2 = Inr merged" by blast
    with k(4) show ?thesis by simp
  qed
qed

section \<open>The merge on trees of mixed shape\<close>
text \<open>
  The example in the docstring of \<open>merge_results\<close>: under the shared key \<open>C\<close> the
  code keeps the value of \<open>dict1\<close>. \<open>add_step_result\<close> passes the new result's
  artifacts as \<open>dict1\<close>, so on a rerun it is the new value that is kept.
\<close>

lemma merge_results_docstring_example:
  "merge_results
     (PyDict [(''A'', PyDict [(''value'', PyStr ''A'')]),
              (''C'', PyDict [(''value'', PyStr ''overwriteme'')])])
     (PyDict [(''B'', PyDict [(''value'', PyStr ''B'')]),
              (''C'', PyDict [(''value'', PyStr ''C'')])])
   = Inr (PyDict [(''B'', PyDict [(''value'', PyStr ''B'')]),
                  (''C'', PyDict [(''value'', PyStr ''overwriteme'')]),
                  (''A'', PyDict [(''value'', PyStr ''A'')])])"
  by code_simp

text \<open>
  C1, the result of the deep merge on every pair of mapping trees: the union of the keys,
  one-sided keys kept, shared mappings merged, and the newer value under any other shared
  key, with no error. The code at newer \<open>{n: 2, a: {b: {c: 1}}}\<close>, older
  \<open>{o: 3, a: {b: 0}}\<close>: below \<open>a\<close> the key \<open>b\<close> is shared, a mapping in newer and a
  scalar in older; the claim gives it the newer value, the code recurses into
  \<open>merge_results({c: 1}, 0)\<close> and the whole merge raises \<open>TypeError\<close>. (Where the merge
  returns, its result is the one described: \<open>merge_results_returns\<close>.)
\<close>

theorem merge_results_raises_below_shared_key:
  "merge_results
     (PyDict [(''n'', PyInt 2), (''a'', PyDict [(''b'', PyDict [(''c'', PyInt 1)])])])
     (PyDict [(''o'', PyInt 3), (''a'', PyDict [(''b'', PyInt 0)])])
   = Inl TypeError"
  by code_simp



text \<open>
  C2, totality of the deep merge, also where a shared key holds a mapping on one side and
  a scalar on the other. The code at newer \<open>{a: {x: 1}}\<close>, older \<open>{a: 's'}\<close>: the newer
  value is a dictionary, so the merge recurses into \<open>merge_results({x: 1}, 's')\<close>, whose
  display \<open>{**'s', **{x: 1}}\<close> raises \<open>TypeError\<close>. With the sides exchanged the newer
  scalar wins and nothing is raised.
\<close>

theorem merge_results_raises_on_dict_over_scalar:
  "merge_results (PyDict [(''a'', PyDict [(''x'', PyInt 1)])]) (PyDict [(''a'', PyStr ''s'')])
   = Inl TypeError
   \<and> merge_results (PyDict [(''a'', PyStr ''s'')]) (PyDict [(''a'', PyDict [(''x'', PyInt 1)])])
   = Inr (PyDict [(''a'', PyStr ''s'')])"
  by code_simp

section \<open>Queries\<close>

text \<open>Each loop of \<open>get_artifact_value\<close> is a search for the first entry that ends it.\<close>

lemma scan_step_sub_find:
  "scan_step_sub wl a sn ssn v =
     (case find (\<lambda>r. step_name r = sn \<and> sub_step_name r = Some ssn) wl of
        None \<Rightarrow> v | Some r \<Rightarrow> step_result_get_artifact_value r a)"
  by (induction wl) auto

lemma scan_step_find:
  "scan_step wl a sn PyNone =
     (case find (\<lambda>r. step_name r = sn \<and> step_result_get_artifact_value r a \<noteq> PyNone) wl of
        None \<Rightarrow> PyNone | Some r \<Rightarrow> step_result_get_artifact_value r a)"
  by (induction wl) (auto simp: Let_def)

lemma scan_all_find:
  "scan_all wl a PyNone =
     (case find (\<lambda>r. step_result_get_artifact_value r a \<noteq> PyNone) wl of
        None \<Rightarrow> PyNone | Some r \<Rightarrow> step_result_get_artifact_value r a)"
  by (induction wl) (auto simp: Let_def)

lemma artifact_value_iff:
  assumes "artifacts_ok r"
  shows "step_result_get_artifact_value r a \<noteq> PyNone \<longleftrightarrow> dict_contains (artifacts r) a"
proof (cases "map_of (artifacts r) a")
  case None
  then show ?thesis by (simp add: step_result_get_artifact_value_def dict_contains_def)
next
  case (Some v)
  then have "(a, v) \<in> set (artifacts r)" by (rule map_of_SomeD)
  with assms have "is_artifact v" by (auto simp: artifacts_ok_def list_all_iff)
  with Some show ?thesis
    by (auto simp: step_result_get_artifact_value_def dict_contains_def is_artifact_def
             split: pyval.splits option.splits)
qed

lemma find_cong_set: "(\<And>x. x \<in> set xs \<Longrightarrow> P x = Q x) \<Longrightarrow> find P xs = find Q xs"
  by (induction xs) auto


text \<open>
  C5, the fully scoped query: with a stage name and a sub-stage name given, the answer is
  the value of that artifact in the entry of exactly that identity (the first one in
  store order, should there be several), and \<open>None\<close> when no entry has that identity or
  that entry has no such artifact; no other entry is consulted.
\<close>

theorem get_artifact_value_step_and_sub_step:
  "get_artifact_value wl a (Some sn) (Some ssn) =
     (case find (\<lambda>r. identity r = (sn, Some ssn)) wl of
        None \<Rightarrow> PyNone | Some r \<Rightarrow> step_result_get_artifact_value r a)"
  by (simp add: get_artifact_value_def scan_step_sub_find identity_def)


theorem get_artifact_value_step_and_sub_step_witness:
  "get_artifact_value
     [add_artifact (StepResult_init ''build'' (Some ''x'') ''i'') ''v'' ''1'',
      add_artifact (StepResult_init ''build'' (Some ''y'') ''i'') ''v'' ''2'']
     ''v'' (Some ''build'') (Some ''y'') = PyStr ''2''
   \<and> get_artifact_value
     [add_artifact (StepResult_init ''build'' (Some ''x'') ''i'') ''v'' ''1'',
      add_artifact (StepResult_init ''build'' (Some ''y'') ''i'') ''v'' ''2'']
     ''v'' (Some ''build'') (Some ''z'') = PyNone"
proof -
  have 1: "(case find (\<lambda>r. identity r = (''build'', Some ''y''))
     [add_artifact (StepResult_init ''build'' (Some ''x'') ''i'') ''v'' ''1'',
      add_artifact (StepResult_init ''build'' (Some ''y'') ''i'') ''v'' ''2''] of
        None \<Rightarrow> PyNone | Some r \<Rightarrow> step_result_get_artifact_value r ''v'') = PyStr ''2''"
    by code_simp
  have 2: "(case find (\<lambda>r. identity r = (''build'', Some ''z''))
     [add_artifact (StepResult_init ''build'' (Some ''x'') ''i'') ''v'' ''1'',
      add_artifact (StepResult_init ''build'' (Some ''y'') ''i'') ''v'' ''2''] of
        None \<Rightarrow> PyNone | Some r \<Rightarrow> step_result_get_artifact_value r ''v'') = PyNone"
    by code_simp
  show ?thesis
    using 1 2 by (simp only: get_artifact_value_step_and_sub_step)
qed

text \<open>
  C6, the order-sensitive queries, on a store whose artifacts have the shape of the data
  model: with only a stage name given, the answer is the value of that artifact in the
  first entry, in store order, of that stage that has an artifact of that name; with no
  scope given, in the first entry that has one; \<open>None\<close> when no entry qualifies.
\<close>

theorem get_artifact_value_first_match:
  assumes "list_all artifacts_ok wl"
  shows "get_artifact_value wl a (Some sn) None =
           (case find (\<lambda>r. step_name r = sn \<and> dict_contains (artifacts r) a) wl of
              None \<Rightarrow> PyNone | Some r \<Rightarrow> step_result_get_artifact_value r a)
       \<and> get_artifact_value wl a None None =
           (case find (\<lambda>r. dict_contains (artifacts r) a) wl of
              None \<Rightarrow> PyNone | Some r \<Rightarrow> step_result_get_artifact_value r a)"
proof -
  have 1: "find (\<lambda>r. step_name r = sn \<and> step_result_get_artifact_value r a \<noteq> PyNone) wl
         = find (\<lambda>r. step_name r = sn \<and> dict_contains (artifacts r) a) wl"
    using assms by (intro find_cong_set) (auto simp: list_all_iff artifact_value_iff)
  have 2: "find (\<lambda>r. step_result_get_artifact_value r a \<noteq> PyNone) wl
         = find (\<lambda>r. dict_contains (artifacts r) a) wl"
    using assms by (intro find_cong_set) (auto simp: list_all_iff artifact_value_iff)
  show ?thesis
    by (simp add: get_artifact_value_def scan_step_find scan_all_find 1 2)
qed

theorem get_artifact_value_first_match_witness:
  "list_all artifacts_ok
     [add_artifact (StepResult_init ''A'' (Some ''a'') ''i'') ''w'' ''0'',
      add_artifact (StepResult_init ''B'' (Some ''b'') ''i'') ''v'' ''1'',
      add_artifact (StepResult_init ''B'' (Some ''c'') ''i'') ''v'' ''2'']
   \<and> get_artifact_value
     [add_artifact (StepResult_init ''A'' (Some ''a'') ''i'') ''w'' ''0'',
      add_artifact (StepResult_init ''B'' (Some ''b'') ''i'') ''v'' ''1'',
      add_artifact (StepResult_init ''B'' (Some ''c'') ''i'') ''v'' ''2'']
     ''v'' (Some ''B'') None = PyStr ''1''
   \<and> get_artifact_value
     [add_artifact (StepResult_init ''A'' (Some ''a'') ''i'') ''w'' ''0'',
      add_artifact (StepResult_init ''B'' (Some ''b'') ''i'') ''v'' ''1'',
      add_artifact (StepResult_init ''B'' (Some ''c'') ''i'') ''v'' ''2'']
     ''v'' None None = PyStr ''1''"
proof -
  let ?wl = "[add_artifact (StepResult_init ''A'' (Some ''a'') ''i'') ''w'' ''0'',
      add_artifact (StepResult_init ''B'' (Some ''b'') ''i'') ''v'' ''1'',
      add_artifact (StepResult_init ''B'' (Some ''c'') ''i'') ''v'' ''2'']"
  have h: "list_all artifacts_ok ?wl" by code_simp
  have 1: "(case find (\<lambda>r. step_name r = ''B'' \<and> dict_contains (artifacts r) ''v'') ?wl of
              None \<Rightarrow> PyNone | Some r \<Rightarrow> step_result_get_artifact_value r ''v'') = PyStr ''1''"
    by code_simp
  have 2: "(case find (\<lambda>r. dict_contains (artifacts r) ''v'') ?wl of
              None \<Rightarrow> PyNone | Some r \<Rightarrow> step_result_get_artifact_value r ''v'') = PyStr ''1''"
    by code_simp
  show ?thesis
    using h 1 2 get_artifact_value_first_match [OF h, of "''v''" "''B''"] by simp
qed

section \<open>Snapshots\<close>

text \<open>
  Creating directories only adds directories: no file appears, disappears or changes, and
  a successful \<open>os.makedirs\<close> leaves the directory it was asked for.
\<close>

lemma os_mkdir_result:
  "os_mkdir fs p = (r, fs') \<Longrightarrow>
     (r = Inr () \<and> fs' = fs(p \<mapsto> Dir) \<and> fs p = None \<and> p \<noteq> []) \<or> (\<exists>e. r = Inl e \<and> fs' = fs)"
  by (auto simp: os_mkdir_def lookup_def split: if_splits option.splits)

lemma os_mkdir_adds_dirs:
  assumes "os_mkdir fs p = (r, fs')"
  shows "fs' q = fs q \<or> (fs q = None \<and> fs' q = Some Dir)"
  using os_mkdir_result [OF assms] by (cases "q = p") auto

lemma os_makedirs_step:
  "os_makedirs fs name =
     (if fst (if snd (os_path_split name) = [] then os_path_split (fst (os_path_split name))
              else os_path_split name) \<noteq> []
         \<and> snd (if snd (os_path_split name) = [] then os_path_split (fst (os_path_split name))
              else os_path_split name) \<noteq> []
         \<and> \<not> os_path_exists fs (fst (if snd (os_path_split name) = [] then os_path_split (fst (os_path_split name))
              else os_path_split name))
      then (case os_makedirs fs (fst (if snd (os_path_split name) = [] then os_path_split (fst (os_path_split name))
              else os_path_split name)) of
              (Inl FileExistsError, fs') \<Rightarrow> os_mkdir fs' name
            | (Inl e, fs') \<Rightarrow> (Inl e, fs')
            | (Inr u, fs') \<Rightarrow> os_mkdir fs' name)
      else os_mkdir fs name)"
  by (subst os_makedirs.simps) (simp only: Let_def)

lemma os_makedirs_adds_dirs:
  "os_makedirs fs name = (r, fs') \<Longrightarrow> fs' q = fs q \<or> (fs q = None \<and> fs' q = Some Dir)"
proof (induction fs name arbitrary: r fs' rule: os_makedirs.induct)
  case (1 fs name)
  define ht where "ht = (if snd (os_path_split name) = [] then os_path_split (fst (os_path_split name))
                else os_path_split name)"
  define c where "c \<longleftrightarrow> fst ht \<noteq> [] \<and> snd ht \<noteq> [] \<and> \<not> os_path_exists fs (fst ht)"
  have step: "os_makedirs fs name =
     (if c then
           (case os_makedirs fs (fst ht) of
              (Inl FileExistsError, fs') \<Rightarrow> os_mkdir fs' name
            | (Inl e, fs') \<Rightarrow> (Inl e, fs')
            | (Inr u, fs') \<Rightarrow> os_mkdir fs' name)
         else os_mkdir fs name)"
    unfolding c_def ht_def by (rule os_makedirs_step)
  show ?case
  proof (cases c)
    case False
    with step have "os_makedirs fs name = os_mkdir fs name" by simp
    with "1.prems" have "os_mkdir fs name = (r, fs')" by simp
    then show ?thesis by (rule os_mkdir_adds_dirs)
  next
    case True
    then have c': "fst ht \<noteq> [] \<and> snd ht \<noteq> [] \<and> \<not> os_path_exists fs (fst ht)"
      by (simp add: c_def)
    obtain r1 fs1 where rec: "os_makedirs fs (fst ht) = (r1, fs1)"
      by (cases "os_makedirs fs (fst ht)")
    have ih: "fs1 q = fs q \<or> (fs q = None \<and> fs1 q = Some Dir)"
      using "1.IH" [OF ht_def c' rec] .
    have "(r, fs') = (r1, fs1) \<or> os_mkdir fs1 name = (r, fs')"
      using "1.prems" step True rec by (auto split: sum.splits error.splits)
    then show ?thesis
    proof
      assume "(r, fs') = (r1, fs1)"
      with ih show ?thesis by simp
    next
      assume "os_mkdir fs1 name = (r, fs')"
      from os_mkdir_adds_dirs [OF this, of q] ih show ?thesis by auto
    qed
  qed
qed


lemma folder_create_adds_dirs:
  "folder_create fs p = (r, fs') \<Longrightarrow> fs' q = fs q \<or> (fs q = None \<and> fs' q = Some Dir)"
  by (auto simp: folder_create_def Let_def split: if_splits dest: os_makedirs_adds_dirs)

lemma folder_create_file:
  assumes "folder_create fs p = (r, fs')"
  shows "lookup fs' q = Some (File c) \<longleftrightarrow> lookup fs q = Some (File c)"
  using folder_create_adds_dirs [OF assms, of q]
  by (auto simp: lookup_def)

lemma folder_create_isfile:
  assumes "folder_create fs p = (r, fs')"
  shows "os_path_isfile fs' q = os_path_isfile fs q"
proof -
  have "\<And>c. lookup fs' q = Some (File c) \<longleftrightarrow> lookup fs q = Some (File c)"
    using folder_create_file [OF assms] .
  then show ?thesis
    unfolding os_path_isfile_def
    by (cases "lookup fs' q"; cases "lookup fs q") (auto split: fnode.splits)
qed

lemma load_after_folder_create:
  assumes fc: "folder_create fs p = (Inr u, fs')"
  shows "load_from_pickle_file P fs p =
          (if \<not> os_path_isfile fs' p then (Inr WorkflowResult_init, fs')
          else
            (case os_path_getsize fs' p of
               Inl error \<Rightarrow> (Inl (TSSCException (Some error)), fs')
             | Inr sz \<Rightarrow>
                 if sz = 0 then (Inr WorkflowResult_init, fs')
                 else
                   (case open_rb fs' p of
                      Inl error \<Rightarrow> (Inl (TSSCException (Some error)), fs')
                    | Inr content \<Rightarrow>
                        (case pickle_loads P content of
                           Inl error \<Rightarrow> (Inl (TSSCException (Some error)), fs')
                         | Inr (ObjWorkflowResult workflow_result) \<Rightarrow> (Inr workflow_result, fs')
                         | Inr other \<Rightarrow>
                             (Inl (TSSCException (Some (TSSCException None))), fs')))))"
  by (simp add: load_from_pickle_file_def fc)

lemma load_folder_create_fails:
  assumes fc: "folder_create fs p = (Inl e, fs')"
  shows "load_from_pickle_file P fs p = (Inl (TSSCException (Some e)), fs')"
  by (simp add: load_from_pickle_file_def fc)


text \<open>
  C7 as stated, that loading a path that does not exist returns the empty store without
  raising, fails where the parent directory cannot be made. At \<open>a/b/c.pkl\<close> with \<open>a\<close>
  a regular file the path does not exist, \<open>folder_create\<close> finds no \<open>a/b\<close> and calls
  \<open>os.makedirs\<close>, whose \<open>mkdir\<close> raises \<open>NotADirectoryError\<close> inside the \<open>try\<close>, and
  the handler raises \<open>TSSCException\<close> from it.
\<close>

theorem load_from_pickle_file_missing_path_raises:
  "\<not> os_path_exists (Map.empty(''a'' \<mapsto> File [1])) ''a/b/c.pkl''
   \<and> fst (load_from_pickle_file
            \<lparr>pickle_dumps = (\<lambda>obj. Inr [1]), pickle_loads = (\<lambda>bs. Inr (ObjOther PyNone))\<rparr>
            (Map.empty(''a'' \<mapsto> File [1])) ''a/b/c.pkl'')
     = Inl (TSSCException (Some NotADirectoryError))"
  by code_simp

text \<open>
  C7, the contract of loading a binary snapshot, amended: when \<open>folder_create\<close> does not
  raise (the parent directory is there or can be made), a path that is not a file, or is
  a file of length zero, gives the empty store without raising; a file whose bytes are
  there and do not unpickle to a \<open>WorkflowResult\<close> makes the load raise
  \<open>TSSCException\<close>, whether \<open>pickle.load\<close> raised or gave another object; and when
  \<open>folder_create\<close> raises, the load raises \<open>TSSCException\<close> from that exception.
\<close>

theorem load_from_pickle_file_contract:
  "(fst (folder_create fs p) = Inr () \<and> \<not> os_path_isfile fs p
      \<longrightarrow> fst (load_from_pickle_file P fs p) = Inr WorkflowResult_init)
   \<and> (fst (folder_create fs p) = Inr () \<and> lookup fs p = Some (File [])
      \<longrightarrow> fst (load_from_pickle_file P fs p) = Inr WorkflowResult_init)
   \<and> (lookup fs p = Some (File c) \<and> c \<noteq> []
        \<and> (\<forall>wl. pickle_loads P c \<noteq> Inr (ObjWorkflowResult wl))
      \<longrightarrow> (\<exists>e. fst (load_from_pickle_file P fs p) = Inl (TSSCException (Some e))))
   \<and> (fst (folder_create fs p) = Inl err
      \<longrightarrow> fst (load_from_pickle_file P fs p) = Inl (TSSCException (Some err)))"
proof -
  obtain r fs' where fc: "folder_create fs p = (r, fs')" by (cases "folder_create fs p")
  have isf: "os_path_isfile fs' p = os_path_isfile fs p"
    using folder_create_isfile [OF fc] .
  have fl: "\<And>c. lookup fs' p = Some (File c) \<longleftrightarrow> lookup fs p = Some (File c)"
    using folder_create_file [OF fc] .
  have a: "fst (load_from_pickle_file P fs p) = Inr WorkflowResult_init"
    if "r = Inr ()" "\<not> os_path_isfile fs p"
    using that fc isf by (simp add: load_after_folder_create)
  have b: "fst (load_from_pickle_file P fs p) = Inr WorkflowResult_init"
    if "r = Inr ()" "lookup fs p = Some (File [])"
  proof -
    have "lookup fs' p = Some (File [])" using that fl by simp
    then show ?thesis using that fc
      by (simp add: load_after_folder_create os_path_getsize_def)
  qed
  have c: "\<exists>e. fst (load_from_pickle_file P fs p) = Inl (TSSCException (Some e))"
    if "lookup fs p = Some (File c)" "c \<noteq> []" "\<forall>wl. pickle_loads P c \<noteq> Inr (ObjWorkflowResult wl)"
  proof (cases r)
    case (Inl e)
    then show ?thesis using fc by (simp add: load_folder_create_fails)
  next
    case (Inr u)
    have l: "lookup fs' p = Some (File c)" using that fl by simp
    show ?thesis
    proof (cases "pickle_loads P c")
      case (Inl e)
      then show ?thesis using Inr fc l that(2)
        by (simp add: load_after_folder_create os_path_getsize_def os_path_isfile_def open_rb_def)
    next
      case (Inr obj)
      with that(3) have "\<And>wl. obj \<noteq> ObjWorkflowResult wl" by auto
      then show ?thesis using Inr \<open>r = Inr u\<close> fc l that(2)
        by (cases obj)
           (auto simp add: load_after_folder_create os_path_getsize_def os_path_isfile_def open_rb_def)
    qed
  qed
  have d: "fst (load_from_pickle_file P fs p) = Inl (TSSCException (Some err))"
    if "r = Inl err"
    using that fc by (simp add: load_folder_create_fails)
  show ?thesis using a b c d fc by auto
qed


theorem load_from_pickle_file_contract_witness:
  "fst (load_from_pickle_file \<lparr>pickle_dumps = (\<lambda>obj. Inr [1]), pickle_loads = (\<lambda>bs. Inr (ObjOther PyNone))\<rparr>
        (Map.empty(''results'' \<mapsto> Dir, ''results/empty.pkl'' \<mapsto> File [],
                 ''results/bad.pkl'' \<mapsto> File [7]))
        ''results/missing.pkl'') = Inr WorkflowResult_init
   \<and> fst (load_from_pickle_file \<lparr>pickle_dumps = (\<lambda>obj. Inr [1]), pickle_loads = (\<lambda>bs. Inr (ObjOther PyNone))\<rparr>
        (Map.empty(''results'' \<mapsto> Dir, ''results/empty.pkl'' \<mapsto> File [],
                 ''results/bad.pkl'' \<mapsto> File [7]))
        ''results/empty.pkl'') = Inr WorkflowResult_init
   \<and> (\<exists>e. fst (load_from_pickle_file \<lparr>pickle_dumps = (\<lambda>obj. Inr [1]), pickle_loads = (\<lambda>bs. Inr (ObjOther PyNone))\<rparr>
        (Map.empty(''results'' \<mapsto> Dir, ''results/empty.pkl'' \<mapsto> File [],
                 ''results/bad.pkl'' \<mapsto> File [7]))
        ''results/bad.pkl'') = Inl (TSSCException (Some e)))
   \<and> fst (load_from_pickle_file \<lparr>pickle_dumps = (\<lambda>obj. Inr [1]), pickle_loads = (\<lambda>bs. Inr (ObjOther PyNone))\<rparr>
        (Map.empty(''results'' \<mapsto> Dir, ''results/empty.pkl'' \<mapsto> File [],
                 ''results/bad.pkl'' \<mapsto> File [7]))
        ''results/empty.pkl/sub/w.pkl'') = Inl (TSSCException (Some NotADirectoryError))"
proof -
  let ?P = "\<lparr>pickle_dumps = (\<lambda>obj. Inr [1]), pickle_loads = (\<lambda>bs. Inr (ObjOther PyNone))\<rparr>"
  let ?fs = "(Map.empty(''results'' \<mapsto> Dir, ''results/empty.pkl'' \<mapsto> File [],
                 ''results/bad.pkl'' \<mapsto> File [7]))"
  have a: "fst (folder_create ?fs ''results/missing.pkl'') = Inr ()
           \<and> \<not> os_path_isfile ?fs ''results/missing.pkl''"
    by code_simp
  have b: "fst (folder_create ?fs ''results/empty.pkl'') = Inr ()
           \<and> lookup ?fs ''results/empty.pkl'' = Some (File [])"
    by code_simp
  have c: "lookup ?fs ''results/bad.pkl'' = Some (File [7]) \<and> [7::nat] \<noteq> []
           \<and> (\<forall>wl. pickle_loads ?P [7] \<noteq> Inr (ObjWorkflowResult wl))"
    by (simp add: lookup_def)
  have d: "fst (folder_create ?fs ''results/empty.pkl/sub/w.pkl'') = Inl NotADirectoryError"
    by code_simp
  show ?thesis
    using a b c d
      load_from_pickle_file_contract [of ?fs "''results/missing.pkl''" ?P "[7]" NotADirectoryError]
      load_from_pickle_file_contract [of ?fs "''results/empty.pkl''" ?P "[7]" NotADirectoryError]
      load_from_pickle_file_contract [of ?fs "''results/bad.pkl''" ?P "[7]" NotADirectoryError]
      load_from_pickle_file_contract [of ?fs "''results/empty.pkl/sub/w.pkl''" ?P "[7]" NotADirectoryError]
    by blast
qed

text \<open>
  C8, the binary round trip: when \<open>write_to_pickle_file\<close> has returned, and \<open>pickle\<close>
  gives back the store it was given, from bytes that are not empty, then loading the same
  path returns that store, entry for entry and in the same order, and leaves the file
  system as it is; so its rendered snapshot is that of the store written.
\<close>

theorem pickle_round_trip:
  assumes w: "write_to_pickle_file P fs wl p = (Inr (), fs')"
    and codec: "\<forall>bytes. pickle_dumps P (ObjWorkflowResult wl) = Inr bytes
                  \<longrightarrow> bytes \<noteq> [] \<and> pickle_loads P bytes = Inr (ObjWorkflowResult wl)"
  shows "load_from_pickle_file P fs' p = (Inr wl, fs')
         \<and> map_sum id get_all_step_results (fst (load_from_pickle_file P fs' p))
             = Inr (get_all_step_results wl)"
proof -
  obtain r1 fs1 where fc: "folder_create fs p = (r1, fs1)" by (cases "folder_create fs p")
  obtain r2 fs2 where ow: "open_wb fs1 p = (r2, fs2)" by (cases "open_wb fs1 p")
  from w fc ow obtain bytes where
    r1: "r1 = Inr ()" and r2: "r2 = Inr ()"
    and d: "pickle_dumps P (ObjWorkflowResult wl) = Inr bytes"
    and fs': "fs' = fs2(p \<mapsto> File bytes)"
    by (auto simp: write_to_pickle_file_def split: sum.splits)
  from ow r2 have p: "p \<noteq> []" and nd: "lookup fs1 p \<noteq> Some Dir"
    and cp: "check_parent fs1 p = None" and fs2: "fs2 = fs1(p \<mapsto> File [])"
    by (auto simp: open_wb_def split: if_splits option.splits)
  from codec d have ne: "bytes \<noteq> []" and l: "pickle_loads P bytes = Inr (ObjWorkflowResult wl)"
    by auto
  have proot: "p \<noteq> ''/''" using nd by (auto simp: lookup_def)
  have lp: "lookup fs' p = Some (File bytes)"
    using p proot by (simp add: lookup_def fs')
  have par: "os_path_dirname p = [] \<or> lookup fs1 (os_path_dirname p) = Some Dir"
    using cp by (auto simp: check_parent_def Let_def split: if_splits option.splits fnode.splits)
  have "os_path_dirname p = [] \<or> os_path_exists fs' (os_path_dirname p)"
  proof (cases "os_path_dirname p = []")
    case True then show ?thesis by simp
  next
    case False
    with par have pd: "lookup fs1 (os_path_dirname p) = Some Dir" by simp
    with nd have "os_path_dirname p \<noteq> p" by auto
    then have "lookup fs' (os_path_dirname p) = lookup fs1 (os_path_dirname p)"
      by (simp add: lookup_def fs' fs2)
    with pd show ?thesis by (simp add: os_path_exists_def)
  qed
  then have fc': "folder_create fs' p = (Inr (), fs')"
    by (auto simp: folder_create_def Let_def)
  have "load_from_pickle_file P fs' p = (Inr wl, fs')"
    using lp ne l
    by (simp add: load_after_folder_create [OF fc'] os_path_isfile_def os_path_getsize_def open_rb_def)
  then show ?thesis by simp
qed


theorem pickle_round_trip_witness:
  "fst (write_to_pickle_file
          \<lparr>pickle_dumps = (\<lambda>obj. Inr [1]),
         pickle_loads = (\<lambda>bs. Inr (ObjWorkflowResult
           [add_artifact (StepResult_init ''A'' (Some ''x'') ''i'') ''v'' ''1'']))\<rparr>
          Map.empty [add_artifact (StepResult_init ''A'' (Some ''x'') ''i'') ''v'' ''1'']
          ''results/w.pkl'') = Inr ()
   \<and> fst (load_from_pickle_file
          \<lparr>pickle_dumps = (\<lambda>obj. Inr [1]),
         pickle_loads = (\<lambda>bs. Inr (ObjWorkflowResult
           [add_artifact (StepResult_init ''A'' (Some ''x'') ''i'') ''v'' ''1'']))\<rparr>
          (snd (write_to_pickle_file
             \<lparr>pickle_dumps = (\<lambda>obj. Inr [1]),
         pickle_loads = (\<lambda>bs. Inr (ObjWorkflowResult
           [add_artifact (StepResult_init ''A'' (Some ''x'') ''i'') ''v'' ''1'']))\<rparr>
             Map.empty [add_artifact (StepResult_init ''A'' (Some ''x'') ''i'') ''v'' ''1'']
             ''results/w.pkl''))
          ''results/w.pkl'')
     = Inr [add_artifact (StepResult_init ''A'' (Some ''x'') ''i'') ''v'' ''1'']"
proof -
  let ?P = "\<lparr>pickle_dumps = (\<lambda>obj. Inr [1]),
         pickle_loads = (\<lambda>bs. Inr (ObjWorkflowResult
           [add_artifact (StepResult_init ''A'' (Some ''x'') ''i'') ''v'' ''1'']))\<rparr>"
  let ?wl = "[add_artifact (StepResult_init ''A'' (Some ''x'') ''i'') ''v'' ''1'']"
  let ?w = "write_to_pickle_file ?P Map.empty ?wl ''results/w.pkl''"
  have w1: "fst ?w = Inr ()" by code_simp
  then have w: "?w = (Inr (), snd ?w)" by (simp add: prod_eq_iff)
  have codec: "\<forall>bytes. pickle_dumps ?P (ObjWorkflowResult ?wl) = Inr bytes
                 \<longrightarrow> bytes \<noteq> [] \<and> pickle_loads ?P bytes = Inr (ObjWorkflowResult ?wl)"
    by simp
  show ?thesis
    using w1 pickle_round_trip [OF w codec] by simp
qed



end
